theory Spec2Isabelle
  imports Complex_Main "HOL-Library.Word"
begin

section \<open>The symbol synchronizer of liquid-dsp (src/filter/src/symsync.c)\<close>

text \<open>
  Conventions of the embedding.
  \<^item> \<open>unsigned int\<close> and \<open>int\<close> are 32-bit words; \<open>+\<close> and \<open>-\<close> wrap, and \<open><\<close> on
    words is the unsigned comparison that C performs when an \<open>int\<close> meets an
    \<open>unsigned int\<close> (the loop guard of \<open>step\<close>).
  \<^item> \<open>float\<close> is modelled by \<open>real\<close> and the sample types TI, TO by \<open>complex\<close>, the
    coefficient type TC by \<open>real\<close>: every arithmetic operation of the source is the
    exact operation here, rounding is not modelled. The properties of the control
    flow and of the frame do not depend on the arithmetic; those that bound a
    magnitude (\<open>loop_ok\<close> and what follows from it) are about exact arithmetic.
  \<^item> \<open>exit(1)\<close> after a failed validation, a read past the end of an array and a
    float-to-int conversion out of the range of \<open>int\<close> are values of \<open>error\<close>.
  \<^item> The \<open>while\<close> loop of \<open>step\<close> takes fuel; \<open>None\<close> means the fuel ran out.
\<close>

type_synonym uint = "32 word"
type_synonym sint32 = "32 word"

datatype error =
    Precondition_violation
  | Array_index_out_of_range
  | Bank_index_out_of_range
  | Conversion_out_of_range

definition thenE :: "error + 'a \<Rightarrow> ('a \<Rightarrow> error + 'b) \<Rightarrow> error + 'b" where
  "thenE m f = (case m of Inl e \<Rightarrow> Inl e | Inr x \<Rightarrow> f x)"

fun sequenceE :: "(error + 'a) list \<Rightarrow> error + 'a list" where
  "sequenceE [] = Inr []"
| "sequenceE (m # ms) =
     (case m of Inl e \<Rightarrow> Inl e
      | Inr x \<Rightarrow> (case sequenceE ms of Inl e \<Rightarrow> Inl e | Inr xs \<Rightarrow> Inr (x # xs)))"

definition read :: "'a list \<Rightarrow> nat \<Rightarrow> error + 'a" where
  "read xs i = (if i < length xs then Inr (xs ! i) else Inl Array_index_out_of_range)"

subsection \<open>The polyphase filterbank FIRPFB\<close>

record firpfb =
  pfb_num_filters :: uint
  pfb_h :: "real list"
  pfb_w :: "complex list"

text \<open>
  Modelled from the spec: the functions \<open>FIRPFB(_create)\<close>, \<open>FIRPFB(_push)\<close>,
  \<open>FIRPFB(_execute)\<close> and \<open>FIRPFB(_clear)\<close> are called by symsync.c and defined
  elsewhere in the repository, not under src/. Section 4.1 of the spec: a bank over a prototype \<open>h\<close> of
  length \<open>N * L\<close> has the sub-filters \<open>h_b[n] = h[n * N + b]\<close>; \<open>push\<close> shifts a sample
  into the delay line of length \<open>L\<close>; \<open>execute(b)\<close> is the sum of
  \<open>h_b[n] * delay[n]\<close> over \<open>n < L\<close>; \<open>clear\<close> zeroes the delay line. Here \<open>L\<close> is
  the prototype length divided by \<open>N\<close>, the newest sample is \<open>delay[0]\<close>, a new bank
  has a zero delay line, and an index outside the bank is an error.
\<close>

definition FIRPFB_create :: "uint \<Rightarrow> real list \<Rightarrow> uint \<Rightarrow> firpfb" where
  "FIRPFB_create num_filters' h' h_len' =
     \<lparr> pfb_num_filters = num_filters',
       pfb_h = take (unat h_len') h',
       pfb_w = replicate (unat h_len' div unat num_filters') 0 \<rparr>"

text \<open>
  Modelled from the spec: \<open>FIRPFB(_push)\<close>, not under src/; the sample enters at
  the head of the delay line and the oldest one leaves.
\<close>

definition FIRPFB_push :: "firpfb \<Rightarrow> complex \<Rightarrow> firpfb" where
  "FIRPFB_push p x = p\<lparr> pfb_w := take (length (pfb_w p)) (x # pfb_w p) \<rparr>"

text \<open>Modelled from the spec: \<open>FIRPFB(_clear)\<close>, not under src/; it zeroes the delay line.\<close>

definition FIRPFB_clear :: "firpfb \<Rightarrow> firpfb" where
  "FIRPFB_clear p = p\<lparr> pfb_w := replicate (length (pfb_w p)) 0 \<rparr>"

text \<open>
  Modelled from the spec: \<open>FIRPFB(_execute)\<close>, not under src/; the output of
  sub-filter \<open>b'\<close> on the delay line, for an index \<open>b'\<close> inside the bank.
\<close>

definition FIRPFB_execute :: "firpfb \<Rightarrow> uint \<Rightarrow> error + complex" where
  "FIRPFB_execute p b' =
     (if b' < pfb_num_filters p
      then Inr (sum_list (map (\<lambda>n. complex_of_real (pfb_h p ! (n * unat (pfb_num_filters p) + unat b'))
                                   * pfb_w p ! n)
                              [0..<length (pfb_w p)]))
      else Inl Bank_index_out_of_range)"

subsection \<open>The synchronizer object\<close>

record symsync =
  h_len :: uint
  k :: uint
  k_out :: uint
  decim_counter :: uint
  is_locked :: int
  r :: real
  b :: sint32
  del :: real
  tau :: real
  bf :: real
  alpha :: real
  beta :: real
  q :: real
  q_hat :: real
  q_prime :: real
  npfb :: uint
  mf :: firpfb
  dmf :: firpfb

definition float_of_uint :: "uint \<Rightarrow> real" where
  "float_of_uint n = real (unat n)"

text \<open>\<open>roundf\<close>: to the nearest integer, halfway cases away from zero.\<close>

definition roundf :: "real \<Rightarrow> int" where
  "roundf x = (if 0 \<le> x then \<lfloor>x + 1 / 2\<rfloor> else - \<lfloor>- x + 1 / 2\<rfloor>)"

text \<open>The cast \<open>(int)\<close> of an integral float: undefined outside the range of \<open>int\<close>.\<close>

definition int_of_float :: "int \<Rightarrow> error + sint32" where
  "int_of_float v =
     (if - (2 ^ 31) \<le> v \<and> v < 2 ^ 31 then Inr (word_of_int v) else Inl Conversion_out_of_range)"

definition set_output_rate :: "symsync \<Rightarrow> uint \<Rightarrow> error + symsync" where
  "set_output_rate s k_out' =
     (if k_out' = 0 then Inl Precondition_violation
      else
        let s1 = s\<lparr> k_out := k_out' \<rparr>;
            s2 = s1\<lparr> r := float_of_uint (k_out s1) / float_of_uint (k s1) \<rparr>
        in Inr (s2\<lparr> del := 1 / r s2 \<rparr>))"

definition set_lf_bw :: "symsync \<Rightarrow> real \<Rightarrow> error + symsync" where
  "set_lf_bw s bt =
     (if bt < 0 \<or> bt > 1 then Inl Precondition_violation
      else Inr (s\<lparr> alpha := 1 - bt, beta := 22 / 100 * bt \<rparr>))"

definition reset :: "symsync \<Rightarrow> symsync" where
  "reset s =
     s\<lparr> mf := FIRPFB_clear (mf s),
        b := 0, tau := 0, bf := 0, q := 0, q_hat := 0, q_prime := 0, decim_counter := 0 \<rparr>"

definition clear :: "symsync \<Rightarrow> symsync" where
  "clear s = reset s"

definition lock :: "symsync \<Rightarrow> symsync" where
  "lock s = s\<lparr> is_locked := 1 \<rparr>"

definition unlock :: "symsync \<Rightarrow> symsync" where
  "unlock s = s\<lparr> is_locked := 0 \<rparr>"

definition get_tau :: "symsync \<Rightarrow> real" where
  "get_tau s = tau s"

subsection \<open>Construction\<close>

text \<open>
  One pass of the loop that computes the derivative filter: \<open>dh[i]\<close> from the
  coefficients \<open>h'\<close>, for a declared length \<open>n\<close>.
\<close>

definition dh_entry :: "uint \<Rightarrow> real list \<Rightarrow> nat \<Rightarrow> nat \<Rightarrow> error + real" where
  "dh_entry npfb' h' n i =
     thenE
       (if i = 0 then
          thenE (read h' (i + 1)) (\<lambda>x. thenE (read h' (n - 1)) (\<lambda>y. Inr (x - y)))
        else if i = n - 1 then
          thenE (read h' 0) (\<lambda>x. thenE (read h' (i - 1)) (\<lambda>y. Inr (x - y)))
        else
          thenE (read h' (i + 1)) (\<lambda>x. thenE (read h' (i - 1)) (\<lambda>y. Inr (x - y))))
       (\<lambda>d. Inr (d * (float_of_uint npfb' / 16)))"

definition derivative_filter :: "uint \<Rightarrow> real list \<Rightarrow> uint \<Rightarrow> error + real list" where
  "derivative_filter npfb' h' h_len' =
     sequenceE (map (dh_entry npfb' h' (unat h_len')) [0..<unat h_len'])"

text \<open>
  The freshly allocated object. \<open>create\<close> assigns every field before it returns, so
  the values given here to the fields that \<open>malloc\<close> leaves uninitialised never show.
\<close>

definition allocated :: symsync where
  "allocated =
     \<lparr> h_len = 0, k = 0, k_out = 0, decim_counter = 0, is_locked = 0, r = 0, b = 0,
       del = 0, tau = 0, bf = 0, alpha = 0, beta = 0, q = 0, q_hat = 0, q_prime = 0,
       npfb = 0, mf = FIRPFB_create 0 [] 0, dmf = FIRPFB_create 0 [] 0 \<rparr>"

definition create :: "uint \<Rightarrow> uint \<Rightarrow> real list \<Rightarrow> uint \<Rightarrow> error + symsync" where
  "create k' npfb' h' h_len' =
     (if k' < 2 then Inl Precondition_violation
      else if h_len' = 0 then Inl Precondition_violation
      else if npfb' = 0 then Inl Precondition_violation
      else
        let s1 = allocated\<lparr> k := k', npfb := npfb', tau := 0, bf := 0, b := 0 \<rparr>
        in thenE (set_output_rate s1 1) (\<lambda>s2.
           let s3 = s2\<lparr> h_len := (h_len' - 1) div npfb s2 \<rparr>
           in thenE (derivative_filter npfb' h' h_len') (\<lambda>dh.
              let s4 = s3\<lparr> mf := FIRPFB_create (npfb s3) h' h_len',
                           dmf := FIRPFB_create (npfb s3) dh h_len' \<rparr>;
                  s5 = clear s4
              in thenE (set_lf_bw s5 (1 / 100)) (\<lambda>s6.
                 thenE (set_output_rate s6 1) (\<lambda>s7.
                 Inr (unlock s7))))))"

text \<open>
  \<open>design_rnyquist_filter\<close> is defined elsewhere, not under src/; it is a parameter here:
  \<open>design type' kn m' beta' dt i\<close> is the coefficient it writes at index \<open>i\<close>.
\<close>

definition create_rnyquist ::
  "(int \<Rightarrow> uint \<Rightarrow> uint \<Rightarrow> real \<Rightarrow> real \<Rightarrow> nat \<Rightarrow> real) \<Rightarrow>
     int \<Rightarrow> uint \<Rightarrow> uint \<Rightarrow> real \<Rightarrow> uint \<Rightarrow> error + symsync" where
  "create_rnyquist design type' k' m' beta' npfb' =
     (if k' < 2 then Inl Precondition_violation
      else if m' = 0 then Inl Precondition_violation
      else if beta' < 0 \<or> beta' > 1 then Inl Precondition_violation
      else
        let H_len = 2 * npfb' * k' * m' + 1;
            Hf = map (design type' (k' * npfb') m' beta' 0) [0..<unat H_len];
            H = Hf
        in create k' npfb' H H_len)"

subsection \<open>The loop filter and the emit loop\<close>

definition advance_internal_loop :: "symsync \<Rightarrow> complex \<Rightarrow> complex \<Rightarrow> symsync" where
  "advance_internal_loop s mf' dmf' =
     (let s1 = s\<lparr> q := Re (cnj mf' * dmf') \<rparr>;
          s2 = (if q s1 > 1 then s1\<lparr> q := 1 \<rparr>
                else if q s1 < - 1 then s1\<lparr> q := - 1 \<rparr>
                else s1);
          s3 = s2\<lparr> q_hat := q s2 * beta s2 + q_prime s2 * alpha s2 \<rparr>;
          s4 = s3\<lparr> q_prime := q_hat s3 \<rparr>
      in s4\<lparr> del := float_of_uint (k s4) / float_of_uint (k_out s4) + q_hat s4 \<rparr>)"

text \<open>
  The end of the loop body: the counter, the phase and the bank index move on. The
  count \<open>n\<close> of written samples is incremented by the caller.
\<close>

definition advance_phase :: "symsync \<Rightarrow> error + symsync" where
  "advance_phase s =
     (let s1 = s\<lparr> decim_counter := decim_counter s + 1 \<rparr>;
          s2 = s1\<lparr> tau := tau s1 + del s1 \<rparr>;
          s3 = s2\<lparr> bf := tau s2 * float_of_uint (npfb s2) \<rparr>
      in thenE (int_of_float (roundf (bf s3))) (\<lambda>b'. Inr (s3\<lparr> b := b' \<rparr>)))"

text \<open>\<open>y[n] = v\<close> on the output buffer, of which the first \<open>n\<close> entries count.\<close>

definition write_y :: "complex list \<Rightarrow> nat \<Rightarrow> complex \<Rightarrow> complex list" where
  "write_y y n v = take n y @ [v]"

fun emit_loop ::
  "nat \<Rightarrow> symsync \<Rightarrow> complex list \<Rightarrow> nat \<Rightarrow> (error + symsync \<times> complex list \<times> nat) option" where
  "emit_loop 0 s y n = (if b s < npfb s then None else Some (Inr (s, y, n)))"
| "emit_loop (Suc fuel) s y n =
     (if b s < npfb s then
        (case FIRPFB_execute (mf s) (b s) of
           Inl e \<Rightarrow> Some (Inl e)
         | Inr mf' \<Rightarrow>
             let y1 = write_y y n (mf' / complex_of_real (float_of_uint (k s))) in
             if decim_counter s = k_out s then
               let s1 = s\<lparr> decim_counter := 0 \<rparr> in
               if is_locked s1 \<noteq> 0 then emit_loop fuel s1 y1 n
               else
                 (case FIRPFB_execute (dmf s1) (b s1) of
                    Inl e \<Rightarrow> Some (Inl e)
                  | Inr dmf' \<Rightarrow>
                      (case advance_phase (advance_internal_loop s1 mf' dmf') of
                         Inl e \<Rightarrow> Some (Inl e)
                       | Inr s2 \<Rightarrow> emit_loop fuel s2 y1 (n + 1)))
             else
               (case advance_phase s of
                  Inl e \<Rightarrow> Some (Inl e)
                | Inr s2 \<Rightarrow> emit_loop fuel s2 y1 (n + 1)))
      else Some (Inr (s, y, n)))"

definition push_sample :: "symsync \<Rightarrow> complex \<Rightarrow> symsync" where
  "push_sample s x = s\<lparr> mf := FIRPFB_push (mf s) x, dmf := FIRPFB_push (dmf s) x \<rparr>"

definition wrap_symbol :: "symsync \<Rightarrow> symsync" where
  "wrap_symbol s =
     s\<lparr> tau := tau s - 1, bf := bf s - float_of_uint (npfb s), b := b s - npfb s \<rparr>"

definition step :: "nat \<Rightarrow> symsync \<Rightarrow> complex \<Rightarrow> (error + symsync \<times> complex list) option" where
  "step fuel s x =
     (case emit_loop fuel (push_sample s x) [] 0 of
        None \<Rightarrow> None
      | Some (Inl e) \<Rightarrow> Some (Inl e)
      | Some (Inr (s1, y, n)) \<Rightarrow> Some (Inr (wrap_symbol s1, take n y)))"

fun execute :: "nat \<Rightarrow> symsync \<Rightarrow> complex list \<Rightarrow> (error + symsync \<times> complex list) option" where
  "execute fuel s [] = Some (Inr (s, []))"
| "execute fuel s (x # xs) =
     (case step fuel s x of
        None \<Rightarrow> None
      | Some (Inl e) \<Rightarrow> Some (Inl e)
      | Some (Inr (s1, y)) \<Rightarrow>
          (case execute fuel s1 xs of
             None \<Rightarrow> None
           | Some (Inl e) \<Rightarrow> Some (Inl e)
           | Some (Inr (s2, ys)) \<Rightarrow> Some (Inr (s2, y @ ys))))"

subsection \<open>Sequences of public operations\<close>

datatype op =
    Step complex
  | Execute "complex list"
  | Set_output_rate uint
  | Set_lf_bw real
  | Lock
  | Unlock
  | Reset

fun apply_op :: "nat \<Rightarrow> symsync \<Rightarrow> op \<Rightarrow> (error + symsync) option" where
  "apply_op fuel s (Step x) = map_option (map_sum id fst) (step fuel s x)"
| "apply_op fuel s (Execute xs) = map_option (map_sum id fst) (execute fuel s xs)"
| "apply_op fuel s (Set_output_rate k_out') = Some (set_output_rate s k_out')"
| "apply_op fuel s (Set_lf_bw bt) = Some (set_lf_bw s bt)"
| "apply_op fuel s Lock = Some (Inr (lock s))"
| "apply_op fuel s Unlock = Some (Inr (unlock s))"
| "apply_op fuel s Reset = Some (Inr (reset s))"

fun run :: "nat \<Rightarrow> symsync \<Rightarrow> op list \<Rightarrow> (error + symsync) option" where
  "run fuel s [] = Some (Inr s)"
| "run fuel s (c # cs) =
     (case apply_op fuel s c of
        None \<Rightarrow> None
      | Some (Inl e) \<Rightarrow> Some (Inl e)
      | Some (Inr s1) \<Rightarrow> run fuel s1 cs)"

text \<open>A synchronizer created from the coefficients \<open>h'\<close>, then driven by \<open>cs\<close>.\<close>

definition session ::
  "nat \<Rightarrow> uint \<Rightarrow> uint \<Rightarrow> real list \<Rightarrow> op list \<Rightarrow> (error + symsync) option" where
  "session fuel k' npfb' h' cs =
     (case create k' npfb' h' (word_of_nat (length h')) of
        Inl e \<Rightarrow> Some (Inl e)
      | Inr s \<Rightarrow> run fuel s cs)"

text \<open>
  The states a caller can reach: \<open>create\<close> on an array of the declared length, then
  any public operation that returns.
\<close>

inductive reachable :: "symsync \<Rightarrow> bool" where
  reachable_create:
    "length h' = unat h_len' \<Longrightarrow> create k' npfb' h' h_len' = Inr s \<Longrightarrow> reachable s"
| reachable_op:
    "reachable s \<Longrightarrow> apply_op fuel s c = Some (Inr s1) \<Longrightarrow> reachable s1"

subsection \<open>Predicates and an example used in the properties\<close>

text \<open>Both banks have as many sub-filters as the synchronizer counts.\<close>

definition banks_ok :: "symsync \<Rightarrow> bool" where
  "banks_ok s = (pfb_num_filters (mf s) = npfb s \<and> pfb_num_filters (dmf s) = npfb s)"

text \<open>A synchronizer on three coefficients, one sub-filter, two samples per symbol.\<close>

definition example_sync :: symsync where
  "example_sync = (case create 2 1 [0, 1, 16] 3 of Inr s \<Rightarrow> s | Inl e \<Rightarrow> allocated)"

text \<open>
  The loop-filter state is within its bounds: \<open>beta = 0.22 * (1 - alpha)\<close> with
  \<open>alpha\<close> in \<open>[0,1]\<close>, the error estimates are bounded, and the phase step is at
  least the nominal step minus \<open>0.22\<close>.
\<close>

definition min_del :: "symsync \<Rightarrow> real" where
  "min_del s = float_of_uint (k s) / float_of_uint (k_out s) - 22 / 100"

definition loop_ok :: "symsync \<Rightarrow> bool" where
  "loop_ok s =
     (2 \<le> unat (k s) \<and> 1 \<le> unat (k_out s)
      \<and> 0 \<le> alpha s \<and> alpha s \<le> 1 \<and> beta s = 22 / 100 * (1 - alpha s)
      \<and> \<bar>q s\<bar> \<le> 1 \<and> \<bar>q_hat s\<bar> \<le> 22 / 100 \<and> \<bar>q_prime s\<bar> \<le> 22 / 100
      \<and> min_del s \<le> del s)"

subsection \<open>The loop filter with rounded operations\<close>

text \<open>
  Rounding to the nearest binary32 value, ties to even, for a value in the normal
  range: the significand has 24 bits. \<open>normalise\<close> scales \<open>a\<close> into \<open>[1, 2)\<close> and
  counts the exponent.
\<close>

fun normalise :: "nat \<Rightarrow> real \<Rightarrow> int \<Rightarrow> real \<times> int" where
  "normalise 0 a e = (a, e)"
| "normalise (Suc n) a e =
     (if 2 \<le> a then normalise n (a / 2) (e + 1)
      else if a < 1 then normalise n (a * 2) (e - 1)
      else (a, e))"

definition round_half_even :: "real \<Rightarrow> int" where
  "round_half_even y =
     (let n = \<lfloor>y\<rfloor>; d = y - of_int n
      in if d < 1 / 2 then n else if 1 / 2 < d then n + 1 else if even n then n else n + 1)"

definition pow2 :: "int \<Rightarrow> real" where
  "pow2 e = (if 0 \<le> e then 2 ^ nat e else 1 / 2 ^ nat (- e))"

definition binary32 :: "real \<Rightarrow> real" where
  "binary32 x =
     (if x = 0 then 0
      else case normalise 300 \<bar>x\<bar> 0 of
             (a, e) \<Rightarrow> sgn x * of_int (round_half_even (a * 2 ^ 23)) * pow2 (e - 23))"

text \<open>
  The assignments of \<open>set_lf_bw\<close> and the filter equation of
  \<open>advance_internal_loop\<close>, every operation followed by the rounding \<open>rnd\<close>.
\<close>

definition alpha_rounded :: "(real \<Rightarrow> real) \<Rightarrow> real \<Rightarrow> real" where
  "alpha_rounded rnd bt = rnd (1 - bt)"

definition beta_rounded :: "(real \<Rightarrow> real) \<Rightarrow> real \<Rightarrow> real" where
  "beta_rounded rnd bt = rnd (rnd (22 / 100) * bt)"

definition q_hat_rounded :: "(real \<Rightarrow> real) \<Rightarrow> real \<Rightarrow> real \<Rightarrow> real \<Rightarrow> real" where
  "q_hat_rounded rnd bt q' q_prime' =
     rnd (rnd (q' * beta_rounded rnd bt) + rnd (q_prime' * alpha_rounded rnd bt))"

section \<open>Properties\<close>

subsection \<open>Frame of the loop body and a rule for loop invariants\<close>

lemma thenE_Inl [simp]: "thenE (Inl e) f = Inl e"
  by (simp add: thenE_def)

lemma thenE_Inr [simp]: "thenE (Inr x) f = f x"
  by (simp add: thenE_def)

lemma thenE_eq_Inr: "thenE m f = Inr y \<Longrightarrow> \<exists>x. m = Inr x \<and> f x = Inr y"
  by (cases m) simp_all

lemma advance_internal_loop_frame:
  "mf (advance_internal_loop s u v) = mf s"
  "dmf (advance_internal_loop s u v) = dmf s"
  "npfb (advance_internal_loop s u v) = npfb s"
  "k (advance_internal_loop s u v) = k s"
  "k_out (advance_internal_loop s u v) = k_out s"
  "is_locked (advance_internal_loop s u v) = is_locked s"
  "tau (advance_internal_loop s u v) = tau s"
  "bf (advance_internal_loop s u v) = bf s"
  "b (advance_internal_loop s u v) = b s"
  "decim_counter (advance_internal_loop s u v) = decim_counter s"
  "alpha (advance_internal_loop s u v) = alpha s"
  "beta (advance_internal_loop s u v) = beta s"
  "h_len (advance_internal_loop s u v) = h_len s"
  "r (advance_internal_loop s u v) = r s"
  by (simp_all add: advance_internal_loop_def Let_def)

lemma advance_phase_frame:
  assumes "advance_phase s = Inr s1"
  shows "mf s1 = mf s" "dmf s1 = dmf s" "npfb s1 = npfb s" "k s1 = k s" "k_out s1 = k_out s"
    "is_locked s1 = is_locked s" "q s1 = q s" "q_hat s1 = q_hat s" "q_prime s1 = q_prime s"
    "del s1 = del s" "alpha s1 = alpha s" "beta s1 = beta s" "h_len s1 = h_len s" "r s1 = r s"
    "tau s1 = tau s + del s" "decim_counter s1 = decim_counter s + 1"
    "bf s1 = tau s1 * float_of_uint (npfb s)"
  using assms
  by (auto simp: advance_phase_def Let_def dest!: thenE_eq_Inr)

lemma advance_phase_b:
  assumes "advance_phase s = Inr s1"
  shows "int_of_float (roundf ((tau s + del s) * float_of_uint (npfb s))) = Inr (b s1)"
  using assms
  by (auto simp: advance_phase_def Let_def dest!: thenE_eq_Inr)

lemma emit_loop_invariant:
  assumes "emit_loop fuel s y n = Some (Inr (p, y1, n1))"
    and "P s"
    and "\<And>t. P t \<Longrightarrow> is_locked t \<noteq> 0 \<Longrightarrow> P (t\<lparr> decim_counter := 0 \<rparr>)"
    and "\<And>t u v. P t \<Longrightarrow> is_locked t = 0 \<Longrightarrow> P (advance_internal_loop (t\<lparr> decim_counter := 0 \<rparr>) u v)"
    and "\<And>t t1. P t \<Longrightarrow> advance_phase t = Inr t1 \<Longrightarrow> P t1"
  shows "P p"
  using assms(1,2)
proof (induction fuel arbitrary: s y n)
  case 0
  then show ?case by (simp split: if_splits)
next
  case (Suc fuel)
  show ?case
  proof (cases "b s < npfb s")
    case False
    with Suc.prems show ?thesis by simp
  next
    case True
    from Suc.prems(1) True obtain u where u: "FIRPFB_execute (mf s) (b s) = Inr u"
      by (auto split: sum.splits)
    show ?thesis
    proof (cases "decim_counter s = k_out s")
      case dc: True
      show ?thesis
      proof (cases "is_locked s = 0")
        case False
        with Suc.prems(1) True u dc
        have "emit_loop fuel (s\<lparr> decim_counter := 0 \<rparr>)
                (write_y y n (u / complex_of_real (float_of_uint (k s)))) n
              = Some (Inr (p, y1, n1))"
          by (simp add: Let_def)
        moreover have "P (s\<lparr> decim_counter := 0 \<rparr>)"
          using assms(3) Suc.prems(2) False by blast
        ultimately show ?thesis by (rule Suc.IH)
      next
        case unl: True
        from Suc.prems(1) True u dc unl obtain v t1 where
          v: "FIRPFB_execute (dmf s) (b s) = Inr v" and
          t1: "advance_phase (advance_internal_loop (s\<lparr> decim_counter := 0 \<rparr>) u v) = Inr t1" and
          rec: "emit_loop fuel t1 (write_y y n (u / complex_of_real (float_of_uint (k s)))) (n + 1)
                  = Some (Inr (p, y1, n1))"
          by (auto simp: Let_def split: sum.splits)
        have "P (advance_internal_loop (s\<lparr> decim_counter := 0 \<rparr>) u v)"
          using assms(4) Suc.prems(2) unl by blast
        then have "P t1" using assms(5) t1 by blast
        with rec show ?thesis by (rule Suc.IH)
      qed
    next
      case dc: False
      from Suc.prems(1) True u dc obtain t1 where
        t1: "advance_phase s = Inr t1" and
        rec: "emit_loop fuel t1 (write_y y n (u / complex_of_real (float_of_uint (k s)))) (n + 1)
                = Some (Inr (p, y1, n1))"
        by (auto simp: Let_def split: sum.splits)
      have "P t1" using assms(5) Suc.prems(2) t1 by blast
      with rec show ?thesis by (rule Suc.IH)
    qed
  qed
qed


lemma example_sync_created: "create 2 1 [0, 1, 16] 3 = Inr example_sync"
  unfolding example_sync_def by code_simp

lemma reachable_example_sync: "reachable example_sync"
  by (rule reachable_create [OF _ example_sync_created]) simp

lemma example_sync_step:
  "(case step 8 example_sync 1 of Some (Inr (s1, ys)) \<Rightarrow> ys = [0] | _ \<Rightarrow> False)"
  by code_simp

lemma example_sync_rates: "unat (k_out example_sync) \<le> 4 * unat (k example_sync)"
  by code_simp

subsection \<open>The bank index (C1)\<close>

lemma advance_phase_error:
  "advance_phase s = Inl e \<Longrightarrow> e = Conversion_out_of_range"
  by (auto simp: advance_phase_def Let_def int_of_float_def thenE_def split: if_splits)

lemma emit_loop_no_bank_error:
  "banks_ok s \<Longrightarrow> emit_loop fuel s y n \<noteq> Some (Inl Bank_index_out_of_range)"
proof (induction fuel arbitrary: s y n)
  case 0
  then show ?case by simp
next
  case (Suc fuel)
  show ?case
  proof (cases "b s < npfb s")
    case False
    then show ?thesis by simp
  next
    case True
    with Suc.prems obtain u v where
      u: "FIRPFB_execute (mf s) (b s) = Inr u" and v: "FIRPFB_execute (dmf s) (b s) = Inr v"
      by (auto simp: banks_ok_def FIRPFB_execute_def)
    let ?y = "write_y y n (u / complex_of_real (float_of_uint (k s)))"
    let ?a = "advance_internal_loop (s\<lparr> decim_counter := 0 \<rparr>) u v"
    have ok0: "banks_ok (s\<lparr> decim_counter := 0 \<rparr>)"
      using Suc.prems by (simp add: banks_ok_def)
    have ok1: "banks_ok ?a"
      using Suc.prems by (simp add: banks_ok_def advance_internal_loop_frame)
    have ok2: "banks_ok t1" if "advance_phase t = Inr t1" "banks_ok t" for t t1
      using that by (simp add: banks_ok_def advance_phase_frame)
    have adv: "(case advance_phase t of Inl e \<Rightarrow> Some (Inl e) | Inr s2 \<Rightarrow> emit_loop fuel s2 ?y (n + 1))
                 \<noteq> Some (Inl Bank_index_out_of_range)" if "banks_ok t" for t
    proof (cases "advance_phase t")
      case (Inl e)
      then show ?thesis using advance_phase_error [OF Inl] by simp
    next
      case (Inr t1)
      then show ?thesis using Suc.IH [OF ok2 [OF Inr that]] by simp
    qed
    show ?thesis
    proof (cases "decim_counter s = k_out s")
      case dc: True
      show ?thesis
      proof (cases "is_locked s = 0")
        case True
        then show ?thesis
          using \<open>b s < npfb s\<close> u v dc adv [OF ok1] by (simp add: Let_def)
      next
        case False
        then show ?thesis
          using \<open>b s < npfb s\<close> u dc Suc.IH [OF ok0] by (simp add: Let_def)
      qed
    next
      case False
      then show ?thesis
        using \<open>b s < npfb s\<close> u adv [OF Suc.prems] by (simp add: Let_def)
    qed
  qed
qed

lemma banks_ok_push_sample: "banks_ok s \<Longrightarrow> banks_ok (push_sample s x)"
  by (simp add: banks_ok_def push_sample_def FIRPFB_push_def)

lemma step_no_bank_error:
  "banks_ok s \<Longrightarrow> step fuel s x \<noteq> Some (Inl Bank_index_out_of_range)"
  using emit_loop_no_bank_error [OF banks_ok_push_sample, of s fuel x "[]" 0]
  by (auto simp: step_def split: option.splits sum.splits)

lemma emit_loop_banks_ok:
  assumes "emit_loop fuel s y n = Some (Inr (p, y1, n1))" and "banks_ok s"
  shows "banks_ok p"
  using assms
proof (rule emit_loop_invariant)
  show "banks_ok (t\<lparr> decim_counter := 0 \<rparr>)" if "banks_ok t" for t
    using that by (simp add: banks_ok_def)
  show "banks_ok (advance_internal_loop (t\<lparr> decim_counter := 0 \<rparr>) u v)" if "banks_ok t" for t u v
    using that by (simp add: banks_ok_def advance_internal_loop_frame)
  show "banks_ok t1" if "banks_ok t" "advance_phase t = Inr t1" for t t1
    using that by (simp add: banks_ok_def advance_phase_frame)
qed

lemma step_result:
  assumes "step fuel s x = Some (Inr (s1, ys))"
  obtains p y n where "emit_loop fuel (push_sample s x) [] 0 = Some (Inr (p, y, n))"
    and "s1 = wrap_symbol p" and "ys = take n y"
  using assms by (auto simp: step_def split: option.splits sum.splits)

lemma step_banks_ok:
  assumes "step fuel s x = Some (Inr (s1, ys))" and "banks_ok s"
  shows "banks_ok s1"
proof -
  from assms(1) obtain p y n where
    p: "emit_loop fuel (push_sample s x) [] 0 = Some (Inr (p, y, n))" and s1: "s1 = wrap_symbol p"
    by (rule step_result)
  have "banks_ok p"
    using p banks_ok_push_sample [OF assms(2)] by (rule emit_loop_banks_ok)
  then show ?thesis by (simp add: s1 banks_ok_def wrap_symbol_def)
qed

lemma execute_no_bank_error:
  "banks_ok s \<Longrightarrow> execute fuel s xs \<noteq> Some (Inl Bank_index_out_of_range)"
proof (induction xs arbitrary: s)
  case Nil
  then show ?case by simp
next
  case (Cons x xs)
  show ?case
  proof (cases "step fuel s x")
    case None
    then show ?thesis by simp
  next
    case (Some res)
    show ?thesis
    proof (cases res)
      case (Inl e)
      with Some step_no_bank_error [OF Cons.prems, of fuel x] show ?thesis by auto
    next
      case (Inr pr)
      obtain s1 ys where pr: "pr = (s1, ys)" by (cases pr)
      have "banks_ok s1" using Some Inr pr Cons.prems by (auto dest: step_banks_ok)
      from Cons.IH [OF this] show ?thesis
        using Some Inr pr by (auto split: option.splits sum.splits)
    qed
  qed
qed

lemma execute_Cons_result:
  assumes "execute fuel s (x # xs) = Some (Inr (s2, zs))"
  obtains s1 y ys where "step fuel s x = Some (Inr (s1, y))"
    and "execute fuel s1 xs = Some (Inr (s2, ys))" and "zs = y @ ys"
  using assms by (auto split: option.splits sum.splits)

lemma execute_invariant:
  assumes "execute fuel s xs = Some (Inr (s1, ys))"
    and "P s"
    and "\<And>t x t1 y. P t \<Longrightarrow> step fuel t x = Some (Inr (t1, y)) \<Longrightarrow> P t1"
  shows "P s1"
  using assms(1,2)
proof (induction xs arbitrary: s ys)
  case Nil
  then show ?case by simp
next
  case (Cons x xs)
  from Cons.prems(1) obtain t y zs where
    t: "step fuel s x = Some (Inr (t, y))" and rest: "execute fuel t xs = Some (Inr (s1, zs))"
    by (rule execute_Cons_result)
  have "P t" using assms(3) Cons.prems(2) t by blast
  with rest show ?case by (rule Cons.IH)
qed

lemma execute_banks_ok:
  assumes "execute fuel s xs = Some (Inr (s1, ys))" and "banks_ok s"
  shows "banks_ok s1"
  using assms by (rule execute_invariant) (rule step_banks_ok)

lemma set_output_rate_banks_ok:
  "set_output_rate s ko = Inr s1 \<Longrightarrow> banks_ok s1 = banks_ok s"
  by (auto simp: set_output_rate_def banks_ok_def Let_def split: if_splits)

lemma set_lf_bw_banks_ok:
  "set_lf_bw s bt = Inr s1 \<Longrightarrow> banks_ok s1 = banks_ok s"
  by (auto simp: set_lf_bw_def banks_ok_def split: if_splits)

lemma create_banks_ok:
  assumes "create k' npfb' h' h_len' = Inr s"
  shows "banks_ok s"
  using assms
  by (auto simp: create_def Let_def banks_ok_def clear_def reset_def unlock_def
      FIRPFB_create_def FIRPFB_clear_def set_output_rate_def set_lf_bw_def
      split: if_splits dest!: thenE_eq_Inr)

lemma apply_op_banks_ok:
  assumes "apply_op fuel s c = Some (Inr s1)" and "banks_ok s"
  shows "banks_ok s1"
proof (cases c)
  case (Step x)
  with assms show ?thesis
    by (cases "step fuel s x") (auto simp: map_sum_def split: sum.splits dest: step_banks_ok)
next
  case (Execute xs)
  with assms show ?thesis
    by (cases "execute fuel s xs") (auto simp: map_sum_def split: sum.splits dest: execute_banks_ok)
next
  case (Set_output_rate ko)
  with assms show ?thesis by (simp add: set_output_rate_banks_ok)
next
  case (Set_lf_bw bt)
  with assms show ?thesis by (simp add: set_lf_bw_banks_ok)
next
  case Lock
  with assms show ?thesis by (auto simp: lock_def banks_ok_def)
next
  case Unlock
  with assms show ?thesis by (auto simp: unlock_def banks_ok_def)
next
  case Reset
  with assms show ?thesis by (auto simp: reset_def banks_ok_def FIRPFB_clear_def)
qed

lemma reachable_banks_ok: "reachable s \<Longrightarrow> banks_ok s"
  by (induction rule: reachable.induct) (auto intro: create_banks_ok apply_op_banks_ok)

text \<open>
  For a bank of at most \<open>2^31\<close> sub-filters, an index that passes the loop guard is
  also non-negative and below \<open>N\<close> as the \<open>int\<close> it is stored as.
\<close>

lemma guard_signed_index:
  assumes "b s < npfb s" and "uint (npfb s) \<le> 2147483648"
  shows "0 \<le> sint (b s) \<and> sint (b s) < uint (npfb s)"
proof -
  have lt: "uint (b s) < uint (npfb s)" using assms(1) by (simp add: word_less_def)
  then have up: "uint (b s) < 2 ^ 31" using assms(2) by simp
  have "(0 :: int) \<le> uint (b s)" by (rule uint_ge_0)
  then have lo: "- (2 ^ 31) \<le> uint (b s)" by (rule order_trans [rotated]) simp
  have "signed_take_bit 31 (uint (b s)) = uint (b s)"
    using lo up by (rule signed_take_bit_int_eq_self)
  then have "sint (b s) = uint (b s)" by (simp add: sint_uint)
  with lt show ?thesis by simp
qed

lemma FIRPFB_execute_error:
  "(FIRPFB_execute p i = Inl e) = (\<not> i < pfb_num_filters p \<and> e = Bank_index_out_of_range)"
  by (auto simp: FIRPFB_execute_def)

text \<open>
  C1. In every state reached from a valid construction by public operations, \<open>step\<close>
  (and \<open>execute\<close>, which iterates it) never evaluates a sub-filter of the matched or
  of the derivative bank with an index outside \<open>0 \<le> b < N\<close>. The index is the
  \<open>unsigned int\<close> that \<open>FIRPFB(_execute)\<close> receives; evaluating an index that is not
  below the number of sub-filters is the error \<open>Bank_index_out_of_range\<close> and nothing
  else is (\<open>FIRPFB_execute_error\<close>), and no amount of fuel makes \<open>step\<close> or
  \<open>execute\<close> end in it.
\<close>

theorem step_bank_index_in_range:
  assumes "reachable s"
  shows "step fuel s x \<noteq> Some (Inl Bank_index_out_of_range)
       \<and> execute fuel s xs \<noteq> Some (Inl Bank_index_out_of_range)"
  using reachable_banks_ok [OF assms] step_no_bank_error execute_no_bank_error by blast

theorem step_bank_index_in_range_witness:
  "reachable example_sync
   \<and> (\<exists>s1. step 8 example_sync 1 = Some (Inr (s1, [0])))
   \<and> step 8 example_sync 1 \<noteq> Some (Inl Bank_index_out_of_range)
   \<and> execute 8 example_sync [1, 0] \<noteq> Some (Inl Bank_index_out_of_range)"
proof -
  from example_sync_step obtain s1 where "step 8 example_sync 1 = Some (Inr (s1, [0]))"
    by (auto split: option.splits sum.splits)
  then show ?thesis
    using reachable_example_sync
      step_bank_index_in_range [OF reachable_example_sync, of 8 1 "[1, 0]"]
    by simp
qed

subsection \<open>The loop filter in exact arithmetic\<close>

lemma loop_filter_bound:
  fixes a x y :: real
  assumes "0 \<le> a" "a \<le> 1" "\<bar>x\<bar> \<le> 1" "\<bar>y\<bar> \<le> 22 / 100"
  shows "\<bar>x * (22 / 100 * (1 - a)) + y * a\<bar> \<le> 22 / 100"
proof -
  have "\<bar>x * (22 / 100 * (1 - a))\<bar> = \<bar>x\<bar> * (22 / 100 * (1 - a))"
    using assms(2) by (simp add: abs_mult)
  also have "\<dots> \<le> 1 * (22 / 100 * (1 - a))"
    using assms(2,3) by (intro mult_right_mono) simp_all
  finally have 1: "\<bar>x * (22 / 100 * (1 - a))\<bar> \<le> 22 / 100 * (1 - a)" by simp
  have "\<bar>y * a\<bar> = \<bar>y\<bar> * a" using assms(1) by (simp add: abs_mult)
  also have "\<dots> \<le> 22 / 100 * a"
    using assms(1,4) by (intro mult_right_mono) simp_all
  finally have 2: "\<bar>y * a\<bar> \<le> 22 / 100 * a" .
  have "\<bar>x * (22 / 100 * (1 - a)) + y * a\<bar> \<le> \<bar>x * (22 / 100 * (1 - a))\<bar> + \<bar>y * a\<bar>"
    by (rule abs_triangle_ineq)
  also have "\<dots> \<le> 22 / 100 * (1 - a) + 22 / 100 * a" using 1 2 by linarith
  also have "\<dots> = 22 / 100" by argo
  finally show ?thesis .
qed

lemma advance_internal_loop_q:
  "q (advance_internal_loop s u v) = max (- 1) (min 1 (Re (cnj u * v)))"
  by (simp add: advance_internal_loop_def Let_def)

lemma advance_internal_loop_q_hat:
  "q_hat (advance_internal_loop s u v)
     = q (advance_internal_loop s u v) * beta s + q_prime s * alpha s"
  by (simp add: advance_internal_loop_def Let_def)

lemma advance_internal_loop_q_prime:
  "q_prime (advance_internal_loop s u v) = q_hat (advance_internal_loop s u v)"
  by (simp add: advance_internal_loop_def Let_def)

lemma advance_internal_loop_del:
  "del (advance_internal_loop s u v)
     = float_of_uint (k s) / float_of_uint (k_out s) + q_hat (advance_internal_loop s u v)"
  by (simp add: advance_internal_loop_def Let_def)

lemma loop_ok_advance_internal_loop:
  assumes "loop_ok s"
  shows "loop_ok (advance_internal_loop s u v)"
proof -
  let ?a = "advance_internal_loop s u v"
  have qb: "\<bar>q ?a\<bar> \<le> 1" by (simp add: advance_internal_loop_q)
  have "\<bar>q ?a * (22 / 100 * (1 - alpha s)) + q_prime s * alpha s\<bar> \<le> 22 / 100"
    using assms qb by (intro loop_filter_bound) (simp_all add: loop_ok_def)
  moreover have "beta s = 22 / 100 * (1 - alpha s)"
    using assms unfolding loop_ok_def by blast
  ultimately have qh: "\<bar>q_hat ?a\<bar> \<le> 22 / 100"
    by (simp only: advance_internal_loop_q_hat)
  then have "min_del ?a \<le> del ?a"
    by (simp add: min_del_def advance_internal_loop_del advance_internal_loop_frame)
  with assms qb qh show ?thesis
    by (simp add: loop_ok_def advance_internal_loop_frame advance_internal_loop_q_prime)
qed

lemma loop_ok_advance_phase:
  "loop_ok s \<Longrightarrow> advance_phase s = Inr s1 \<Longrightarrow> loop_ok s1"
  by (simp add: loop_ok_def min_del_def advance_phase_frame)

lemma loop_ok_decim_counter: "loop_ok (s\<lparr> decim_counter := c \<rparr>) = loop_ok s"
  by (simp add: loop_ok_def min_del_def)

lemma emit_loop_loop_ok:
  assumes "emit_loop fuel s y n = Some (Inr (p, y1, n1))" and "loop_ok s"
  shows "loop_ok p"
  using assms
  by (rule emit_loop_invariant)
    (simp_all add: loop_ok_decim_counter loop_ok_advance_internal_loop loop_ok_advance_phase)

lemma step_loop_ok:
  assumes "step fuel s x = Some (Inr (s1, ys))" and "loop_ok s"
  shows "loop_ok s1"
proof -
  from assms(1) obtain p y n where
    p: "emit_loop fuel (push_sample s x) [] 0 = Some (Inr (p, y, n))" and s1: "s1 = wrap_symbol p"
    by (rule step_result)
  have "loop_ok (push_sample s x)"
    using assms(2) by (simp add: loop_ok_def min_del_def push_sample_def)
  with p have "loop_ok p" by (rule emit_loop_loop_ok)
  then show ?thesis by (simp add: s1 loop_ok_def min_del_def wrap_symbol_def)
qed

lemma execute_loop_ok:
  assumes "execute fuel s xs = Some (Inr (s1, ys))" and "loop_ok s"
  shows "loop_ok s1"
  using assms by (rule execute_invariant) (rule step_loop_ok)


lemma set_output_rate_loop_ok:
  assumes "set_output_rate s ko = Inr s1" and "loop_ok s"
  shows "loop_ok s1"
proof -
  from assms(1) have ko: "ko \<noteq> 0"
    and s1: "s1 = s\<lparr> k_out := ko, r := float_of_uint ko / float_of_uint (k s),
                      del := 1 / (float_of_uint ko / float_of_uint (k s)) \<rparr>"
    by (auto simp: set_output_rate_def Let_def split: if_splits)
  have "1 \<le> unat ko" using ko by (simp add: Suc_le_eq unat_gt_0)
  with assms(2) show ?thesis
    by (simp add: s1 loop_ok_def min_del_def)
qed

lemma set_lf_bw_loop_ok:
  assumes "set_lf_bw s bt = Inr s1" and "loop_ok s"
  shows "loop_ok s1"
  using assms by (auto simp: set_lf_bw_def loop_ok_def min_del_def split: if_splits)

lemma create_fields:
  assumes "create k' npfb' h' h_len' = Inr s"
  shows "k s = k'" "npfb s = npfb'" "k_out s = 1" "alpha s = 99 / 100" "beta s = 22 / 100 * (1 / 100)"
    "q s = 0" "q_hat s = 0" "q_prime s = 0" "del s = 1 / (1 / float_of_uint k')"
    "tau s = 0" "bf s = 0" "b s = 0" "decim_counter s = 0" "is_locked s = 0"
    "h_len s = (h_len' - 1) div npfb'" "2 \<le> k'" "h_len' \<noteq> 0" "npfb' \<noteq> 0"
  using assms
  by (auto simp: create_def Let_def clear_def reset_def unlock_def float_of_uint_def
      set_output_rate_def set_lf_bw_def not_less
      split: if_splits dest!: thenE_eq_Inr)

lemma create_loop_ok:
  assumes "create k' npfb' h' h_len' = Inr s"
  shows "loop_ok s"
proof -
  have "2 \<le> unat k'" using create_fields(16) [OF assms] by (simp add: word_le_nat_alt)
  then show ?thesis
    by (simp add: loop_ok_def min_del_def create_fields [OF assms] float_of_uint_def)
qed

lemma apply_op_loop_ok:
  assumes "apply_op fuel s c = Some (Inr s1)" and "loop_ok s"
  shows "loop_ok s1"
proof (cases c)
  case (Step x)
  with assms show ?thesis
    by (cases "step fuel s x") (auto simp: map_sum_def split: sum.splits dest: step_loop_ok)
next
  case (Execute xs)
  with assms show ?thesis
    by (cases "execute fuel s xs") (auto simp: map_sum_def split: sum.splits dest: execute_loop_ok)
next
  case (Set_output_rate ko)
  with assms show ?thesis by (auto dest: set_output_rate_loop_ok)
next
  case (Set_lf_bw bt)
  with assms show ?thesis by (auto dest: set_lf_bw_loop_ok)
next
  case Lock
  with assms show ?thesis by (auto simp: lock_def loop_ok_def min_del_def)
next
  case Unlock
  with assms show ?thesis by (auto simp: unlock_def loop_ok_def min_del_def)
next
  case Reset
  with assms show ?thesis by (auto simp: reset_def loop_ok_def min_del_def)
qed

lemma reachable_loop_ok: "reachable s \<Longrightarrow> loop_ok s"
  by (induction rule: reachable.induct) (auto intro: create_loop_ok apply_op_loop_ok)

lemma quarter_le_ratio:
  fixes a c :: real
  assumes "0 < c" and "c \<le> 4 * a"
  shows "1 / 4 \<le> a / c"
  using assms by (simp add: field_simps)

lemma min_del_pos:
  assumes "loop_ok s" and "unat (k_out s) \<le> 4 * unat (k s)"
  shows "3 / 100 \<le> min_del s"
proof -
  have "1 \<le> unat (k_out s)" using assms(1) unfolding loop_ok_def by blast
  then have ko: "0 < real (unat (k_out s))" by linarith
  have "real (unat (k_out s)) \<le> 4 * real (unat (k s))"
    using assms(2) by (metis of_nat_le_iff of_nat_mult of_nat_numeral)
  with ko have "1 / 4 \<le> real (unat (k s)) / real (unat (k_out s))"
    by (rule quarter_le_ratio)
  then show ?thesis unfolding min_del_def float_of_uint_def by linarith
qed

subsection \<open>The emit loop ends\<close>

lemma roundf_ge:
  assumes "real n \<le> x"
  shows "int n \<le> roundf x"
proof -
  have "0 \<le> x" using assms by (meson of_nat_0_le_iff order_trans)
  moreover have "int n \<le> \<lfloor>x + 1 / 2\<rfloor>"
    using assms by (simp add: le_floor_iff)
  ultimately show ?thesis by (simp add: roundf_def)
qed

lemma unat_word_of_int_32:
  assumes "0 \<le> v" and "v < 2 ^ 31"
  shows "unat (word_of_int v :: 32 word) = nat v"
proof -
  have "v mod 2 ^ 32 = v" using assms by simp
  then show ?thesis by (simp add: unat_eq_nat_uint uint_word_of_int)
qed

lemma int_of_float_unat:
  assumes "int_of_float v = Inr w" and "0 \<le> v"
  shows "unat w = nat v"
proof -
  from assms(1) have "v < 2 ^ 31" and "w = word_of_int v"
    by (auto simp: int_of_float_def split: if_splits)
  with assms(2) show ?thesis by (simp add: unat_word_of_int_32)
qed

text \<open>Once the phase has reached one symbol, the advance leaves the loop.\<close>

lemma advance_phase_exit:
  assumes "advance_phase t = Inr t1" and "1 \<le> tau t1"
  shows "\<not> b t1 < npfb t1"
proof -
  let ?N = "unat (npfb t)"
  let ?x = "(tau t + del t) * float_of_uint (npfb t)"
  have "1 \<le> tau t + del t"
    using assms by (simp add: advance_phase_frame)
  moreover have "0 \<le> real ?N" by (rule of_nat_0_le_iff)
  ultimately have "1 * real ?N \<le> (tau t + del t) * real ?N"
    by (rule mult_right_mono)
  then have "real ?N \<le> ?x" by (simp only: float_of_uint_def mult_1)
  then have v: "int ?N \<le> roundf ?x" by (rule roundf_ge)
  have "int_of_float (roundf ?x) = Inr (b t1)"
    using assms(1) by (rule advance_phase_b)
  then have "unat (b t1) = nat (roundf ?x)"
    by (rule int_of_float_unat) (use v in linarith)
  with v have "?N \<le> unat (b t1)" by linarith
  then show ?thesis
    using assms(1) by (simp add: word_less_nat_alt advance_phase_frame)
qed

lemma emit_loop_fuel_mono:
  "emit_loop fuel s y n = Some res \<Longrightarrow> emit_loop (fuel + d) s y n = Some res"
proof (induction fuel arbitrary: s y n)
  case 0
  then show ?case by (cases d) (simp_all split: if_splits)
next
  case (Suc fuel)
  then show ?case
    by (auto simp: Let_def split: if_splits sum.splits)
qed

lemma emit_loop_fuel_Suc:
  "emit_loop fuel s y n \<noteq> None \<Longrightarrow> emit_loop (Suc fuel) s y n \<noteq> None"
  using emit_loop_fuel_mono [of fuel s y n _ 1] by auto

lemma emit_loop_two_passes:
  assumes ok: "loop_ok s"
    and after: "\<And>t t1 y1 n1. loop_ok t \<Longrightarrow> min_del t = min_del s \<Longrightarrow> tau t = tau s \<Longrightarrow>
                  advance_phase t = Inr t1 \<Longrightarrow> emit_loop fuel t1 y1 n1 \<noteq> None"
  shows "emit_loop (Suc (Suc fuel)) s y n \<noteq> None"
proof (cases "b s < npfb s")
  case False
  then show ?thesis by simp
next
  case guard: True
  have adv: "(case advance_phase t of Inl e \<Rightarrow> Some (Inl e) | Inr s2 \<Rightarrow> emit_loop f s2 y1 n1) \<noteq> None"
    if "loop_ok t" "min_del t = min_del s" "tau t = tau s" "f = fuel \<or> f = Suc fuel"
    for t y1 n1 f
  proof (cases "advance_phase t")
    case (Inl e)
    then show ?thesis by simp
  next
    case (Inr t1)
    have "emit_loop fuel t1 y1 n1 \<noteq> None" using that(1-3) Inr by (rule after)
    then have "emit_loop f t1 y1 n1 \<noteq> None"
      using that(4) emit_loop_fuel_Suc by blast
    with Inr show ?thesis by simp
  qed
  show ?thesis
  proof (cases "FIRPFB_execute (mf s) (b s)")
    case (Inl e)
    with guard show ?thesis by simp
  next
    case (Inr u)
    let ?y = "write_y y n (u / complex_of_real (float_of_uint (k s)))"
    let ?s0 = "s\<lparr> decim_counter := 0 \<rparr>"
    show ?thesis
    proof (cases "decim_counter s = k_out s")
      case False
      then show ?thesis
        using guard Inr adv [OF ok refl refl, of "Suc fuel"] by (simp add: Let_def)
    next
      case dc: True
      have ok0: "loop_ok ?s0" using ok by (simp add: loop_ok_decim_counter)
      have md0: "min_del ?s0 = min_del s" by (simp add: min_del_def)
      show ?thesis
      proof (cases "is_locked s = 0")
        case True
        show ?thesis
        proof (cases "FIRPFB_execute (dmf s) (b s)")
          case (Inl e)
          then show ?thesis using guard Inr dc True by (simp add: Let_def)
        next
          case v: (Inr v)
          let ?a = "advance_internal_loop ?s0 u v"
          have "loop_ok ?a" using ok0 by (rule loop_ok_advance_internal_loop)
          moreover have "min_del ?a = min_del s"
            by (simp add: min_del_def advance_internal_loop_frame)
          moreover have "tau ?a = tau s" by (simp add: advance_internal_loop_frame)
          ultimately show ?thesis
            using guard Inr dc True v adv [of ?a "Suc fuel"] by (simp add: Let_def)
        qed
      next
        case locked: False
        have "k_out s \<noteq> 0" using ok by (auto simp: loop_ok_def)
        then have "decim_counter ?s0 \<noteq> k_out ?s0" by simp
        then have "emit_loop (Suc fuel) ?s0 ?y n \<noteq> None"
          using guard Inr adv [OF ok0 md0, of fuel] by (simp add: Let_def)
        then show ?thesis
          using guard Inr dc locked by (simp add: Let_def)
      qed
    qed
  qed
qed

lemma emit_loop_terminates:
  assumes "loop_ok s" and "0 < min_del s" and "1 - tau s \<le> real m * min_del s"
  shows "emit_loop (2 * m + 2) s y n \<noteq> None"
  using assms
proof (induction m arbitrary: s y n)
  case 0
  have "emit_loop 0 t1 y1 n1 \<noteq> None"
    if "loop_ok t" "min_del t = min_del s" "tau t = tau s" "advance_phase t = Inr t1"
    for t t1 y1 n1
  proof -
    have "min_del t \<le> del t" using that(1) by (simp add: loop_ok_def)
    then have "1 \<le> tau t1"
      using that 0 by (simp add: advance_phase_frame)
    with that(4) have "\<not> b t1 < npfb t1" by (rule advance_phase_exit)
    then show ?thesis by simp
  qed
  with 0(1) have "emit_loop (Suc (Suc 0)) s y n \<noteq> None" by (rule emit_loop_two_passes)
  then show ?case by simp
next
  case (Suc m)
  have "emit_loop (2 * m + 2) t1 y1 n1 \<noteq> None"
    if "loop_ok t" "min_del t = min_del s" "tau t = tau s" "advance_phase t = Inr t1"
    for t t1 y1 n1
  proof (rule Suc.IH)
    show "loop_ok t1" using that(1,4) by (rule loop_ok_advance_phase)
    have md: "min_del t1 = min_del s"
      using that by (simp add: min_del_def advance_phase_frame)
    then show "0 < min_del t1" using Suc.prems(2) by simp
    have "min_del s \<le> del t" using that(1,2) by (simp add: loop_ok_def)
    moreover have "1 - tau s \<le> real m * min_del s + min_del s"
      using Suc.prems(3) by (simp add: algebra_simps)
    ultimately show "1 - tau t1 \<le> real m * min_del t1"
      using that(3,4) md by (simp add: advance_phase_frame)
  qed
  with Suc.prems(1) have "emit_loop (Suc (Suc (2 * m + 2))) s y n \<noteq> None"
    by (rule emit_loop_two_passes)
  then show ?case by simp
qed

subsection \<open>The symbol wrap (C2)\<close>

lemma emit_loop_count:
  "emit_loop fuel s y n = Some (Inr (p, y1, n1)) \<Longrightarrow> n \<le> length y \<Longrightarrow> n1 \<le> length y1"
proof (induction fuel arbitrary: s y n)
  case 0
  then show ?case by (simp split: if_splits)
next
  case (Suc fuel)
  have w: "n \<le> length (write_y y n v)" "n + 1 \<le> length (write_y y n v)" for v
    using Suc.prems(2) by (simp_all add: write_y_def)
  show ?case
  proof (cases "b s < npfb s")
    case False
    with Suc.prems show ?thesis by simp
  next
    case True
    with Suc.prems(1) show ?thesis
      using Suc.IH w by (auto simp: Let_def split: if_splits sum.splits)
  qed
qed

lemma step_terminates:
  assumes "loop_ok s" and "unat (k_out s) \<le> 4 * unat (k s)"
  shows "\<exists>fuel. step fuel s x \<noteq> None"
proof -
  let ?s = "push_sample s x"
  have ok: "loop_ok ?s" using assms(1) by (simp add: loop_ok_def min_del_def push_sample_def)
  have "unat (k_out ?s) \<le> 4 * unat (k ?s)" using assms(2) by (simp add: push_sample_def)
  with ok have "3 / 100 \<le> min_del ?s" by (rule min_del_pos)
  then have pos: "0 < min_del ?s" by linarith
  define m where "m = nat \<lceil>(1 - tau ?s) / min_del ?s\<rceil>"
  have "(1 - tau ?s) / min_del ?s \<le> real m"
    unfolding m_def by (rule real_nat_ceiling_ge)
  then have "1 - tau ?s \<le> real m * min_del ?s"
    using pos by (simp add: pos_divide_le_eq)
  with ok pos have "emit_loop (2 * m + 2) ?s [] 0 \<noteq> None" by (rule emit_loop_terminates)
  then have "step (2 * m + 2) s x \<noteq> None"
    by (auto simp: step_def split: option.splits sum.splits)
  then show ?thesis ..
qed



subsection \<open>The loop update (C5)\<close>




subsection \<open>The locked synchronizer (C6)\<close>

lemma step_fuel_mono:
  "step fuel s x = Some res \<Longrightarrow> step (fuel + d) s x = Some res"
  by (auto simp: step_def split: option.splits sum.splits dest: emit_loop_fuel_mono [where d = d])

lemma execute_fuel_mono:
  "execute fuel s xs = Some res \<Longrightarrow> execute (fuel + d) s xs = Some res"
proof (induction xs arbitrary: s res)
  case Nil
  then show ?case by simp
next
  case (Cons x xs)
  then show ?case
    by (auto split: option.splits sum.splits dest: step_fuel_mono [where d = d])
qed

lemma step_rates:
  assumes "step fuel s x = Some (Inr (s1, ys))"
  shows "k s1 = k s \<and> k_out s1 = k_out s"
proof -
  from assms obtain p y n where
    p: "emit_loop fuel (push_sample s x) [] 0 = Some (Inr (p, y, n))" and s1: "s1 = wrap_symbol p"
    by (rule step_result)
  have "k p = k s \<and> k_out p = k_out s"
    using p by (rule emit_loop_invariant)
      (simp_all add: push_sample_def advance_internal_loop_frame advance_phase_frame)
  then show ?thesis by (simp add: s1 wrap_symbol_def)
qed

lemma execute_terminates:
  assumes "loop_ok s" and "unat (k_out s) \<le> 4 * unat (k s)"
  shows "\<exists>fuel. execute fuel s xs \<noteq> None"
  using assms
proof (induction xs arbitrary: s)
  case Nil
  then show ?case by simp
next
  case (Cons x xs)
  from step_terminates [OF Cons.prems] obtain f1 res where f1: "step f1 s x = Some res"
    by blast
  show ?case
  proof (cases res)
    case (Inl e)
    with f1 have "execute f1 s (x # xs) \<noteq> None" by simp
    then show ?thesis ..
  next
    case (Inr pr)
    obtain s1 y where pr: "pr = (s1, y)" by (cases pr)
    have st: "step f1 s x = Some (Inr (s1, y))" using f1 Inr pr by simp
    have "loop_ok s1" using st Cons.prems(1) by (rule step_loop_ok)
    moreover have "unat (k_out s1) \<le> 4 * unat (k s1)"
      using step_rates [OF st] Cons.prems(2) by simp
    ultimately obtain f2 res2 where f2: "execute f2 s1 xs = Some res2"
      using Cons.IH by blast
    have "step (f1 + f2) s x = Some (Inr (s1, y))" using st by (rule step_fuel_mono)
    moreover have "execute (f1 + f2) s1 xs = Some res2"
      using execute_fuel_mono [OF f2, of f1] by (simp add: add.commute)
    ultimately have "execute (f1 + f2) s (x # xs) \<noteq> None"
      by (cases res2) auto
    then show ?thesis ..
  qed
qed

text \<open>In a locked synchronizer the loop only counts and advances the phase by \<open>del\<close>.\<close>

lemma emit_loop_locked:
  assumes "emit_loop fuel s y n = Some (Inr (p, y1, n1))" and "is_locked s \<noteq> 0"
  shows "q p = q s \<and> q_hat p = q_hat s \<and> q_prime p = q_prime s \<and> del p = del s
         \<and> is_locked p = is_locked s"
proof -
  let ?P = "\<lambda>t. q t = q s \<and> q_hat t = q_hat s \<and> q_prime t = q_prime s \<and> del t = del s
                \<and> is_locked t = is_locked s"
  have "?P p"
    using assms(1)
  proof (rule emit_loop_invariant [where P = ?P])
    show "?P s" by simp
    show "?P (t\<lparr> decim_counter := 0 \<rparr>)" if "?P t" for t using that by simp
    show "?P (advance_internal_loop (t\<lparr> decim_counter := 0 \<rparr>) u v)"
      if "?P t" "is_locked t = 0" for t u v
      using that assms(2) by simp
    show "?P t1" if "?P t" "advance_phase t = Inr t1" for t t1
      using that by (simp add: advance_phase_frame)
  qed
  then show ?thesis .
qed

lemma emit_loop_locked_tau:
  assumes "emit_loop fuel s y n = Some (Inr (p, y1, n1))" and "is_locked s \<noteq> 0"
  shows "n \<le> n1 \<and> tau p = ((\<lambda>t. t + del s) ^^ (n1 - n)) (tau s)"
  using assms
proof (induction fuel arbitrary: s y n)
  case 0
  then show ?case by (simp split: if_splits)
next
  case (Suc fuel)
  show ?case
  proof (cases "b s < npfb s")
    case False
    with Suc.prems show ?thesis by simp
  next
    case True
    from Suc.prems(1) True obtain u where u: "FIRPFB_execute (mf s) (b s) = Inr u"
      by (auto split: sum.splits)
    let ?y = "write_y y n (u / complex_of_real (float_of_uint (k s)))"
    show ?thesis
    proof (cases "decim_counter s = k_out s")
      case dc: True
      let ?s0 = "s\<lparr> decim_counter := 0 \<rparr>"
      have "emit_loop fuel ?s0 ?y n = Some (Inr (p, y1, n1))"
        using Suc.prems True u dc by (simp add: Let_def)
      moreover have "is_locked ?s0 \<noteq> 0" using Suc.prems(2) by simp
      ultimately have "n \<le> n1 \<and> tau p = ((\<lambda>t. t + del ?s0) ^^ (n1 - n)) (tau ?s0)"
        by (rule Suc.IH)
      then show ?thesis by simp
    next
      case dc: False
      from Suc.prems(1) True u dc obtain t1 where
        t1: "advance_phase s = Inr t1" and
        rec: "emit_loop fuel t1 ?y (n + 1) = Some (Inr (p, y1, n1))"
        by (auto simp: Let_def split: sum.splits)
      have "is_locked t1 \<noteq> 0" using Suc.prems(2) t1 by (simp add: advance_phase_frame)
      with rec have ih: "n + 1 \<le> n1 \<and> tau p = ((\<lambda>t. t + del t1) ^^ (n1 - (n + 1))) (tau t1)"
        by (rule Suc.IH)
      then have "n1 - n = Suc (n1 - (n + 1))" by linarith
      then have "((\<lambda>t. t + del s) ^^ (n1 - n)) (tau s)
                   = ((\<lambda>t. t + del s) ^^ (n1 - (n + 1))) (tau s + del s)"
        by (simp only: funpow_Suc_right o_apply)
      with ih show ?thesis using t1 by (simp add: advance_phase_frame)
    qed
  qed
qed

lemma step_locked:
  assumes "step fuel s x = Some (Inr (s1, ys))" and "is_locked s \<noteq> 0"
  shows "q s1 = q s \<and> q_hat s1 = q_hat s \<and> q_prime s1 = q_prime s \<and> del s1 = del s
         \<and> is_locked s1 = is_locked s"
proof -
  from assms(1) obtain p y n where
    p: "emit_loop fuel (push_sample s x) [] 0 = Some (Inr (p, y, n))" and s1: "s1 = wrap_symbol p"
    by (rule step_result)
  have "is_locked (push_sample s x) \<noteq> 0" using assms(2) by (simp add: push_sample_def)
  with p have "q p = q (push_sample s x) \<and> q_hat p = q_hat (push_sample s x)
      \<and> q_prime p = q_prime (push_sample s x) \<and> del p = del (push_sample s x)
      \<and> is_locked p = is_locked (push_sample s x)"
    by (rule emit_loop_locked)
  then show ?thesis by (simp add: s1 wrap_symbol_def push_sample_def)
qed

lemma step_locked_tau:
  assumes "step fuel s x = Some (Inr (s1, ys))" and "is_locked s \<noteq> 0"
  shows "tau s1 = ((\<lambda>t. t + del s) ^^ length ys) (tau s) - 1"
proof -
  from assms(1) obtain p y n where
    p: "emit_loop fuel (push_sample s x) [] 0 = Some (Inr (p, y, n))" and
    s1: "s1 = wrap_symbol p" and ys: "ys = take n y"
    by (rule step_result)
  from p have "n \<le> length y" by (rule emit_loop_count) simp
  then have n: "length ys = n" by (simp add: ys)
  have "is_locked (push_sample s x) \<noteq> 0" using assms(2) by (simp add: push_sample_def)
  with p have "0 \<le> n \<and> tau p = ((\<lambda>t. t + del (push_sample s x)) ^^ (n - 0)) (tau (push_sample s x))"
    by (rule emit_loop_locked_tau)
  then show ?thesis by (simp add: s1 n wrap_symbol_def push_sample_def)
qed

lemma execute_locked:
  assumes "execute fuel s xs = Some (Inr (s1, ys))" and "is_locked s \<noteq> 0"
  shows "q s1 = q s \<and> q_hat s1 = q_hat s \<and> q_prime s1 = q_prime s \<and> del s1 = del s
         \<and> is_locked s1 = is_locked s"
proof -
  let ?P = "\<lambda>t. q t = q s \<and> q_hat t = q_hat s \<and> q_prime t = q_prime s \<and> del t = del s
                \<and> is_locked t = is_locked s"
  have "?P s1"
    using assms(1)
  proof (rule execute_invariant [where P = ?P])
    show "?P s" by simp
    show "?P t1" if "?P t" "step fuel t x = Some (Inr (t1, y))" for t x t1 y
      using that step_locked [of fuel t x t1 y] assms(2) by simp
  qed
  then show ?thesis .
qed

text \<open>
  C6. After \<open>lock\<close>, running \<open>step\<close> on any list \<open>xs\<close> of input samples leaves \<open>q\<close>,
  \<open>q_hat\<close>, \<open>q_prime\<close> and \<open>del\<close> exactly as they were when \<open>lock\<close> was called, and
  the synchronizer locked. Outputs are still emitted with that step: one locked
  \<open>step\<close> that writes \<open>length zs\<close> samples has added \<open>del\<close> to the phase once per
  sample before the wrap, and the locked run ends, given enough fuel, in every
  reachable state whose output rate is at most four times the input rate.
\<close>

theorem lock_freezes_loop:
  "(execute fuel (lock s) xs = Some (Inr (s1, ys)) \<longrightarrow>
      q s1 = q s \<and> q_hat s1 = q_hat s \<and> q_prime s1 = q_prime s \<and> del s1 = del s
      \<and> is_locked s1 \<noteq> 0)
   \<and> (step fuel (lock s) x = Some (Inr (s2, zs)) \<longrightarrow>
      q s2 = q s \<and> q_hat s2 = q_hat s \<and> q_prime s2 = q_prime s \<and> del s2 = del s
      \<and> is_locked s2 \<noteq> 0
      \<and> tau s2 = ((\<lambda>t. t + del s) ^^ length zs) (tau s) - 1)
   \<and> (reachable s \<and> unat (k_out s) \<le> 4 * unat (k s) \<longrightarrow>
      (\<exists>fuel1. execute fuel1 (lock s) xs \<noteq> None))"
proof -
  have l: "is_locked (lock s) \<noteq> 0" by (simp add: lock_def)
  have "\<exists>fuel1. execute fuel1 (lock s) xs \<noteq> None"
    if "reachable s" "unat (k_out s) \<le> 4 * unat (k s)"
  proof (rule execute_terminates)
    have "loop_ok s" using that(1) by (rule reachable_loop_ok)
    then show "loop_ok (lock s)" by (simp add: loop_ok_def min_del_def lock_def)
    show "unat (k_out (lock s)) \<le> 4 * unat (k (lock s))" using that(2) by (simp add: lock_def)
  qed
  then show ?thesis
    using execute_locked [OF _ l, of fuel xs s1 ys] step_locked [OF _ l, of fuel x s2 zs]
      step_locked_tau [OF _ l, of fuel x s2 zs]
    by (auto simp: lock_def)
qed

lemma example_sync_locked_run:
  "(case execute 8 (lock example_sync) [1, 0, 0] of Some (Inr (s1, ys)) \<Rightarrow> length ys = 2
    | _ \<Rightarrow> False)"
  "(case step 8 (lock example_sync) 1 of Some (Inr (s2, zs)) \<Rightarrow> length zs = 1 | _ \<Rightarrow> False)"
  by code_simp+

theorem lock_freezes_loop_witness:
  "\<exists>s1 ys s2 zs.
     execute 8 (lock example_sync) [1, 0, 0] = Some (Inr (s1, ys)) \<and> length ys = 2
     \<and> q s1 = q example_sync \<and> q_hat s1 = q_hat example_sync
     \<and> q_prime s1 = q_prime example_sync \<and> del s1 = del example_sync \<and> is_locked s1 \<noteq> 0
     \<and> step 8 (lock example_sync) 1 = Some (Inr (s2, zs)) \<and> length zs = 1
     \<and> del s2 = del example_sync \<and> tau s2 = tau example_sync + del example_sync - 1
     \<and> reachable example_sync \<and> unat (k_out example_sync) \<le> 4 * unat (k example_sync)
     \<and> (\<exists>fuel1. execute fuel1 (lock example_sync) [1, 0, 0] \<noteq> None)"
proof -
  from example_sync_locked_run(1) obtain s1 ys where
    r1: "execute 8 (lock example_sync) [1, 0, 0] = Some (Inr (s1, ys))" "length ys = 2"
    by (auto split: option.splits sum.splits)
  from example_sync_locked_run(2) obtain s2 zs where
    r2: "step 8 (lock example_sync) 1 = Some (Inr (s2, zs))" "length zs = 1"
    by (auto split: option.splits sum.splits)
  show ?thesis
    using r1 r2 lock_freezes_loop [of 8 example_sync "[1, 0, 0]" s1 ys 1 s2 zs]
      reachable_example_sync example_sync_rates
    by auto
qed

subsection \<open>The derivative filter (C7)\<close>











subsection \<open>The stored sub-filter length (C9)\<close>

lemma create_stores_h_len:
  assumes "length h' = unat h_len'" and "create k' npfb' h' h_len' = Inr s"
  shows "unat (h_len s) = (length h' - 1) div unat npfb'"
proof -
  have "h_len' \<noteq> 0" using create_fields(17) [OF assms(2)] .
  then have "unat (h_len' - 1) = unat h_len' - 1" by (rule unat_minus_one)
  then show ?thesis
    using assms(1) by (simp add: create_fields(15) [OF assms(2)] unat_div)
qed

text \<open>
  C9 (as amended). After every successful \<open>create\<close> on a prototype of length
  \<open>|h|\<close>, the stored sub-filter length is \<open>(|h| - 1) div N\<close>; it is strictly
  positive exactly when \<open>|h| > N\<close>, and zero for a prototype of at most \<open>N\<close>
  coefficients.
\<close>

theorem create_h_len:
  assumes "length h' = unat h_len'" and "create k' npfb' h' h_len' = Inr s"
  shows "unat (h_len s) = (length h' - 1) div unat npfb'
       \<and> (0 < unat (h_len s)) = (unat npfb' < length h')"
proof -
  have v: "unat (h_len s) = (length h' - 1) div unat npfb'"
    using assms by (rule create_stores_h_len)
  have "npfb' \<noteq> 0" using create_fields(18) [OF assms(2)] .
  then have n: "0 < unat npfb'" by (simp add: unat_gt_0)
  have "h_len' \<noteq> 0" using create_fields(17) [OF assms(2)] .
  then have m: "0 < length h'" using assms(1) by (simp add: unat_gt_0)
  have "(0 < (length h' - 1) div unat npfb') = (unat npfb' \<le> length h' - 1)"
    using n by (simp add: div_greater_zero_iff)
  also have "\<dots> = (unat npfb' < length h')" using m by linarith
  finally show ?thesis using v by simp
qed

theorem create_h_len_witness:
  "length [0, 1, 16 :: real] = unat (3 :: uint) \<and> create 2 1 [0, 1, 16] 3 = Inr example_sync
   \<and> unat (h_len example_sync) = 2 \<and> unat (1 :: uint) < length [0, 1, 16 :: real]"
proof -
  have l: "length [0, 1, 16 :: real] = unat (3 :: uint)" by simp
  show ?thesis
    using l example_sync_created create_h_len [OF l example_sync_created] by simp
qed

text \<open>
  C9, the counterexample: \<open>create\<close> succeeds on three coefficients and three
  sub-filters, and stores the sub-filter length \<open>(3 - 1) div 3 = 0\<close>.
\<close>

theorem short_prototype_h_len_zero:
  "map_sum id h_len (create 2 3 [1, 2, 3] 3) = Inr 0"
  by code_simp

subsection \<open>Validation at construction (C8)\<close>

text \<open>
  C8, the failing input: \<open>create\<close> on a single coefficient passes the three checks and
  then reads \<open>_h[1]\<close>, past the end of the array, for \<open>dh[0]\<close>.
\<close>

theorem create_single_coefficient:
  "create 2 1 [1] 1 = Inl Array_index_out_of_range"
  by code_simp

lemma create_precondition_violation:
  "create k' npfb' h' h_len' = Inl Precondition_violation
     \<longleftrightarrow> k' < 2 \<or> h_len' = 0 \<or> npfb' = 0"
proof -
  have "derivative_filter npfb' h' h_len' \<noteq> Inl Precondition_violation"
  proof
    assume a: "derivative_filter npfb' h' h_len' = Inl Precondition_violation"
    have "sequenceE (map f xs) = Inl e \<Longrightarrow> \<exists>x \<in> set xs. f x = Inl e" for f :: "nat \<Rightarrow> error + real" and xs e
      by (induction xs) (auto split: sum.splits)
    from this [OF a [unfolded derivative_filter_def]] show False
      by (auto simp: dh_entry_def thenE_def read_def split: if_splits sum.splits)
  qed
  then show ?thesis
    by (auto simp: create_def Let_def set_output_rate_def set_lf_bw_def thenE_def
        split: sum.splits)
qed

lemma create_rnyquist_precondition_violation:
  "create_rnyquist design type' k' m' beta' npfb' = Inl Precondition_violation
     \<longleftrightarrow> k' < 2 \<or> m' = 0 \<or> beta' < 0 \<or> beta' > 1 \<or> npfb' = 0"
proof -
  have "2 * npfb' * k' * m' + 1 \<noteq> 0"
  proof
    assume "2 * npfb' * k' * m' + 1 = 0"
    then have "even (2 * npfb' * k' * m' + 1)" by simp
    then show False by (simp add: mult.assoc)
  qed
  then show ?thesis
    by (auto simp: create_rnyquist_def Let_def create_precondition_violation)
qed

lemma sequenceE_map_defined:
  assumes "\<And>x. x \<in> set xs \<Longrightarrow> \<exists>y. f x = Inr y"
  shows "\<exists>ys. sequenceE (map f xs) = Inr ys"
  using assms
proof (induction xs)
  case Nil
  then show ?case by simp
next
  case (Cons x xs)
  then obtain y ys where "f x = Inr y" "sequenceE (map f xs) = Inr ys"
    by (meson list.set_intros)
  then show ?case by simp
qed

lemma dh_entry_defined:
  assumes "2 \<le> length h'" and "i < length h'"
  shows "\<exists>d. dh_entry npfb' h' (length h') i = Inr d"
proof -
  have rd: "read h' j = Inr (h' ! j)" if "j < length h'" for j
    using that by (simp add: read_def)
  consider "i = 0" | "i \<noteq> 0" "i = length h' - 1" | "i \<noteq> 0" "i \<noteq> length h' - 1"
    by blast
  then show ?thesis
  proof cases
    case 1
    have "dh_entry npfb' h' (length h') i
            = Inr ((h' ! 1 - h' ! (length h' - 1)) * (float_of_uint npfb' / 16))"
      using 1 assms by (simp add: dh_entry_def rd)
    then show ?thesis by blast
  next
    case 2
    have "read h' 0 = Inr (h' ! 0)" using assms(1) by (intro rd) linarith
    then have "dh_entry npfb' h' (length h') i
            = Inr ((h' ! 0 - h' ! (i - 1)) * (float_of_uint npfb' / 16))"
      using 2 assms by (simp add: dh_entry_def rd)
    then show ?thesis by blast
  next
    case 3
    then have "i + 1 < length h'" using assms(2) by linarith
    then have "dh_entry npfb' h' (length h') i
            = Inr ((h' ! (i + 1) - h' ! (i - 1)) * (float_of_uint npfb' / 16))"
      using 3 assms by (simp add: dh_entry_def rd)
    then show ?thesis by blast
  qed
qed

lemma create_succeeds:
  assumes "length h' = unat h_len'" and "2 \<le> length h'" and "2 \<le> k'" and "npfb' \<noteq> 0"
  shows "\<exists>s. create k' npfb' h' h_len' = Inr s"
proof -
  have "\<exists>dh. derivative_filter npfb' h' h_len' = Inr dh"
    unfolding derivative_filter_def
    using dh_entry_defined [OF assms(2), of _ npfb'] assms(1)
    by (intro sequenceE_map_defined) simp
  moreover have "h_len' \<noteq> 0" using assms(1,2) by auto
  ultimately show ?thesis
    using assms(3,4)
    by (auto simp: create_def Let_def set_output_rate_def set_lf_bw_def not_less)
qed

subsection \<open>The delay lines of the two banks (C4)\<close>

text \<open>
  C4, the failing input: after one sample has been pushed, \<open>reset\<close> zeroes the delay
  line of the matched bank alone; the derivative bank still holds the sample.
\<close>

theorem reset_keeps_dmf_delay_line:
  "map_option (map_sum id (pfb_w \<circ> mf)) (session 8 2 1 [0, 1, 16] [Step 1, Reset])
     = Some (Inr [0, 0, 0])
   \<and> map_option (map_sum id (pfb_w \<circ> dmf)) (session 8 2 1 [0, 1, 16] [Step 1, Reset])
     = Some (Inr [1, 0, 0])"
  by code_simp

lemma reset_dmf: "dmf (reset s) = dmf s"
  by (simp add: reset_def)

lemma reset_mf: "mf (reset s) = FIRPFB_clear (mf s)"
  by (simp add: reset_def)

lemma step_delay_lines:
  assumes "step fuel s x = Some (Inr (s1, ys))" and "pfb_w (mf s) = pfb_w (dmf s)"
  shows "pfb_w (mf s1) = pfb_w (dmf s1)"
proof -
  from assms(1) obtain p y n where
    p: "emit_loop fuel (push_sample s x) [] 0 = Some (Inr (p, y, n))" and s1: "s1 = wrap_symbol p"
    by (rule step_result)
  have "pfb_w (mf p) = pfb_w (dmf p)"
    using p by (rule emit_loop_invariant)
      (simp_all add: assms(2) push_sample_def FIRPFB_push_def advance_internal_loop_frame
        advance_phase_frame)
  then show ?thesis by (simp add: s1 wrap_symbol_def)
qed

subsection \<open>The sign of the phase step (C3)\<close>

lemma run_reachable:
  "run fuel s cs = Some (Inr s1) \<Longrightarrow> reachable s \<Longrightarrow> reachable s1"
proof (induction cs arbitrary: s)
  case Nil
  then show ?case by simp
next
  case (Cons c cs)
  then show ?case
    by (auto split: option.splits sum.splits intro: reachable_op)
qed

lemma session_reachable:
  assumes "session fuel k' npfb' h' cs = Some (Inr s)" and "length h' < 2 ^ 32"
  shows "reachable s"
proof -
  from assms(1) obtain s0 where
    s0: "create k' npfb' h' (word_of_nat (length h')) = Inr s0" and r: "run fuel s0 cs = Some (Inr s)"
    by (auto simp: session_def split: sum.splits)
  have "unat (word_of_nat (length h') :: uint) = length h'"
    using assms(2) by (simp add: unat_of_nat)
  then have "reachable s0" using s0 by (intro reachable_create [of h']) simp_all
  with r show ?thesis by (rule run_reachable)
qed

lemma create_rnyquist_reachable:
  assumes "create_rnyquist design type' k' m' beta' npfb' = Inr s"
  shows "reachable s"
proof -
  let ?n = "2 * npfb' * k' * m' + 1"
  let ?H = "map (design type' (k' * npfb') m' beta' 0) [0..<unat ?n]"
  from assms have "create k' npfb' ?H ?n = Inr s"
    by (auto simp: create_rnyquist_def Let_def split: if_splits)
  moreover have "length ?H = unat ?n" by simp
  ultimately show ?thesis by (intro reachable_create [of ?H]) 
qed




subsection \<open>The bound on the filtered error and rounding (C10)\<close>

text \<open>
  C10 bounds \<open>q_hat\<close> and \<open>q_prime\<close> by \<open>0.22\<close>. With the operations exact the
  bound holds in every reachable state.
\<close>

lemma loop_filter_bounded_exact:
  assumes "reachable s"
  shows "\<bar>q_hat s\<bar> \<le> 22 / 100 \<and> \<bar>q_prime s\<bar> \<le> 22 / 100"
  using reachable_loop_ok [OF assms] by (simp add: loop_ok_def)

text \<open>
  The exact filter equation is \<open>q_hat_rounded\<close> with the identity for rounding.
\<close>

lemma q_hat_rounded_exact:
  assumes "set_lf_bw s0 bt = Inr s"
  shows "q_hat (advance_internal_loop s u v)
     = q_hat_rounded (\<lambda>x. x) bt (q (advance_internal_loop s u v)) (q_prime s)"
  using assms
  by (auto simp: q_hat_rounded_def alpha_rounded_def beta_rounded_def set_lf_bw_def
      advance_internal_loop_q_hat split: if_splits)

text \<open>
  With every operation rounded to binary32 the bound fails: from the zero state, a
  loop update with bandwidth \<open>1\<close> and \<open>q = 1\<close> leaves \<open>q_prime = 0.22f\<close>, and a second
  one with the binary32 bandwidth \<open>14163561 / 2^25\<close> (about \<open>0.4221\<close>) and \<open>q = 1\<close>
  gives \<open>q_hat = 14763951 / 2^26 > 0.22\<close>. So the truth of the bound depends on how
  the float operations round.
\<close>

lemma binary32_bandwidth:
  "binary32 (14163561 / 33554432) = 14163561 / 33554432"
  by code_simp

lemma binary32_loop_filter_exceeds:
  "q_hat_rounded binary32 1 1 0 = binary32 (22 / 100)"
  "q_hat_rounded binary32 (14163561 / 33554432) 1 (q_hat_rounded binary32 1 1 0)
     = 14763951 / 67108864"
  "(22 / 100 :: real) < 14763951 / 67108864"
  by code_simp+

end
